theory Spec2Isabelle
  imports Main "HOL-Library.Sublist"
begin

section \<open>Python string primitives used by the scraper\<close>

text \<open>
  A Python \<open>str\<close> is modelled as a \<open>string\<close>; a \<open>char\<close> stands for a code point
  below 256. \<open>str_in s t\<close> is Python's \<open>s in t\<close> on strings: \<open>s\<close> occurs in \<open>t\<close> as a
  contiguous run of characters (the empty string occurs everywhere).
\<close>

fun str_in :: "string \<Rightarrow> string \<Rightarrow> bool" where
  "str_in s [] = (s = [])"
| "str_in s (c # t) = (prefix s (c # t) \<or> str_in s t)"

text \<open>
  \<open>str.lower()\<close>: below code point 256 the letters with a lowercase form are
  \<open>A\<close>..\<open>Z\<close> and \<open>0xC0\<close>..\<open>0xDE\<close> without \<open>0xD7\<close>; each is mapped 32 places up.
\<close>

definition lower_char :: "char \<Rightarrow> char" where
  "lower_char c =
     (let n = (of_char c :: nat)
      in if (65 \<le> n \<and> n \<le> 90) \<or> (192 \<le> n \<and> n \<le> 222 \<and> n \<noteq> 215)
         then char_of (n + 32) else c)"

definition lower :: "string \<Rightarrow> string" where
  "lower s = map lower_char s"

text \<open>\<open>str(n)\<close> for an integer: decimal digits, with a minus sign below zero.\<close>

fun str_nat :: "nat \<Rightarrow> string" where
  "str_nat n =
     (if n < 10 then [char_of (48 + n)]
      else str_nat (n div 10) @ [char_of (48 + n mod 10)])"

declare str_nat.simps [simp del]

definition str_int :: "int \<Rightarrow> string" where
  "str_int i = (if i < 0 then CHR ''-'' # str_nat (nat (- i)) else str_nat (nat i))"

text \<open>\<open>"\n".join(xs)\<close>.\<close>

fun join_nl :: "string list \<Rightarrow> string" where
  "join_nl [] = []"
| "join_nl [x] = x"
| "join_nl (x # y # ys) = x @ [CHR 0x0A] @ join_nl (y # ys)"

text \<open>
  \<open>str.splitlines(True)\<close>: the string is cut after every line boundary and the
  boundaries are kept. Below code point 256 the boundaries are \<open>\n\<close>, \<open>\r\<close>, \<open>\r\n\<close>
  (one boundary), \<open>\v\<close>, \<open>\f\<close>, \<open>0x1C\<close>, \<open>0x1D\<close>, \<open>0x1E\<close> and \<open>0x85\<close>. The first argument
  is the line read so far.
\<close>

definition is_linebreak :: "char \<Rightarrow> bool" where
  "is_linebreak c \<longleftrightarrow>
     c \<in> set [CHR 0x0A, CHR 0x0B, CHR 0x0C, CHR 0x0D, CHR 0x1C, CHR 0x1D, CHR 0x1E, CHR 0x85]"

fun splitlines_from :: "string \<Rightarrow> string \<Rightarrow> string list" where
  "splitlines_from cur [] = (if cur = [] then [] else [cur])"
| "splitlines_from cur (c # cs) =
     (if c = CHR 0x0D then
        (case cs of
           [] \<Rightarrow> [cur @ [c]]
         | d # ds \<Rightarrow>
             if d = CHR 0x0A then (cur @ [c, d]) # splitlines_from [] ds
             else (cur @ [c]) # splitlines_from [] cs)
      else if is_linebreak c then (cur @ [c]) # splitlines_from [] cs
      else splitlines_from (cur @ [c]) cs)"

definition splitlines_keepends :: "string \<Rightarrow> string list" where
  "splitlines_keepends s = splitlines_from [] s"

text \<open>
  Reading a file opened with \<open>open(path, mode="r", encoding="utf-8")\<close>: no \<open>newline\<close>
  argument is given, so the text layer reads with universal newlines, and \<open>read()\<close> returns
  the stored characters with every \<open>\r\n\<close> and every remaining \<open>\r\<close> replaced by \<open>\n\<close>.
\<close>

fun universal_newlines :: "string \<Rightarrow> string" where
  "universal_newlines [] = []"
| "universal_newlines (c # cs) =
     (if c = CHR 0x0D then
        (case cs of
           [] \<Rightarrow> [CHR 0x0A]
         | d # ds \<Rightarrow>
             if d = CHR 0x0A then CHR 0x0A # universal_newlines ds
             else CHR 0x0A # universal_newlines cs)
      else c # universal_newlines cs)"


section \<open>The crawl: \<open>scrape_supost\<close>\<close>

text \<open>
  \<open>OFFSET_INCREASE\<close>, the module constant: the amount by which the page offset grows.
\<close>

definition OFFSET_INCREASE :: int where
  "OFFSET_INCREASE = 99"

text \<open>
  What the scraper asks of a parsed page (\<open>BeautifulSoup(content)\<close>): the \<open>href\<close>
  attribute of every \<open>a\<close> element in document order (\<open>None\<close> when the element has
  none), the text of the page (\<open>get_text()\<close>), and the text of the element
  \<open>h2\<close> with id \<open>posttitle\<close> when the page has one (\<open>find\<close> returns \<open>None\<close> otherwise).
\<close>

record soup =
  anchors :: "string option list"
  get_text :: string
  posttitle :: "string option"

text \<open>
  The remote site as the run sees it: \<open>h n url\<close> is the parsed answer to the run's
  request number \<open>n\<close> (counted from 0) when it asks for \<open>url\<close>, and \<open>None\<close> when
  \<open>h.request\<close> raises. A site whose content does not change during the run ignores
  \<open>n\<close>.
\<close>

type_synonym http = "nat \<Rightarrow> string \<Rightarrow> soup option"

datatype error = HttpError | AttributeError | TypeError | IOError | SMTPError

text \<open>
  The requests made so far are kept as a trace, each tagged with the call that made it:
  the listing request at the head of the \<open>while\<close> loop or the detail request inside
  the \<open>for\<close> loop.
\<close>

datatype request = Listing string | Detail string

record crawl_state =
  new_matches :: "string list"
  requests :: "request list"

definition log_request :: "request \<Rightarrow> crawl_state \<Rightarrow> crawl_state" where
  "log_request r st = st\<lparr>requests := requests st @ [r]\<rparr>"

text \<open>\<open>str(link.get("href"))\<close>: a missing attribute prints as \<open>None\<close>.\<close>

definition str_href :: "string option \<Rightarrow> string" where
  "str_href a = (case a of None \<Rightarrow> ''None'' | Some s \<Rightarrow> s)"

text \<open>
  The innermost loop, \<open>for keyword in keywords\<close>, on one fetched post page. It ends in
  one of three ways: an exception, the \<open>return\<close> on an already logged match, or
  normally with the (possibly longer) list of new matches.
\<close>

datatype kw_flow = KRaise error | KReturn "string list" | KNext "string list"

fun keyword_loop ::
  "string \<Rightarrow> string option \<Rightarrow> soup \<Rightarrow> string list \<Rightarrow> string list \<Rightarrow> kw_flow" where
  "keyword_loop previous_logfile_contents href post_page [] matches = KNext matches"
| "keyword_loop previous_logfile_contents href post_page (keyword # keywords) matches =
     (if str_in keyword (lower (get_text post_page)) then
        (case posttitle post_page of
           None \<Rightarrow> KRaise AttributeError
         | Some post_title \<Rightarrow>
             (case href of
                None \<Rightarrow> KRaise TypeError
              | Some target \<Rightarrow>
                  if str_in (post_title @ '': supost.com'' @ target) previous_logfile_contents
                  then KReturn matches
                  else keyword_loop previous_logfile_contents href post_page keywords
                         (matches @ [post_title @ '': supost.com'' @ target])))
      else keyword_loop previous_logfile_contents href post_page keywords matches)"

text \<open>
  The loop \<open>for link in link_page.find_all("a")\<close> over the anchors of one listing page.
\<close>

datatype flow = Raised error crawl_state | Returned crawl_state | Continue crawl_state

fun link_loop ::
  "http \<Rightarrow> string list \<Rightarrow> string \<Rightarrow> string option list \<Rightarrow> crawl_state \<Rightarrow> flow" where
  "link_loop h keywords previous_logfile_contents [] st = Continue st"
| "link_loop h keywords previous_logfile_contents (href # links) st =
     (if str_in ''post/index'' (str_href href) then
        (case h (length (requests st)) (''http://supost.com'' @ str_href href) of
           None \<Rightarrow>
             Raised HttpError (log_request (Detail (''http://supost.com'' @ str_href href)) st)
         | Some post_page \<Rightarrow>
             (case keyword_loop previous_logfile_contents href post_page keywords
                     (new_matches st) of
                KRaise e \<Rightarrow>
                  Raised e (log_request (Detail (''http://supost.com'' @ str_href href)) st)
              | KReturn ms \<Rightarrow>
                  Returned ((log_request (Detail (''http://supost.com'' @ str_href href)) st)
                              \<lparr>new_matches := ms\<rparr>)
              | KNext ms \<Rightarrow>
                  link_loop h keywords previous_logfile_contents links
                    ((log_request (Detail (''http://supost.com'' @ str_href href)) st)
                       \<lparr>new_matches := ms\<rparr>)))
      else link_loop h keywords previous_logfile_contents links st)"

text \<open>
  The \<open>while is_scraping\<close> loop. A run ends with an exception or at one of the three
  \<open>return\<close> statements inside the loop; the result names which one, next to the pair
  \<open>(new_matches, offset)\<close> that Python returns and the trace of requests.
\<close>

datatype stop_reason = AlreadySeenMatch | OldestDateReached | OffsetBoundExceeded

datatype run_result =
    Crashed error "request list"
  | Finished "string list" int stop_reason "request list"

function scrape_loop ::
  "http \<Rightarrow> string list \<Rightarrow> int \<Rightarrow> string \<Rightarrow> string \<Rightarrow> int \<Rightarrow> string \<Rightarrow> crawl_state
    \<Rightarrow> run_result" where
  "scrape_loop h keywords days_to_check previous_logfile_contents oldest_date_str offset link st =
     (case h (length (requests st)) link of
        None \<Rightarrow> Crashed HttpError (requests (log_request (Listing link) st))
      | Some link_page \<Rightarrow>
          (case link_loop h keywords previous_logfile_contents (anchors link_page)
                  (log_request (Listing link) st) of
             Raised e st' \<Rightarrow> Crashed e (requests st')
           | Returned st' \<Rightarrow> Finished (new_matches st') offset AlreadySeenMatch (requests st')
           | Continue st' \<Rightarrow>
               if str_in oldest_date_str (get_text link_page)
               then Finished (new_matches st') offset OldestDateReached (requests st')
               else if offset + OFFSET_INCREASE > OFFSET_INCREASE * 2 * days_to_check
               then Finished (new_matches st') offset OffsetBoundExceeded (requests st')
               else scrape_loop h keywords days_to_check previous_logfile_contents
                      oldest_date_str (offset + OFFSET_INCREASE)
                      (''http://supost.com/search/index/5?offset=''
                         @ str_int (offset + OFFSET_INCREASE))
                      st'))"
  by pat_completeness auto
termination
  by (relation "measure (\<lambda>(h, keywords, days_to_check, prev, oldest, offset, link, st).
        nat (OFFSET_INCREASE * 2 * days_to_check - offset))")
     (auto simp: OFFSET_INCREASE_def)

declare scrape_loop.simps [simp del]

text \<open>
  For statements about the requests of a run: the trace a run ends with, and the test
  that a request was made for a listing page.
\<close>

fun requests_of :: "run_result \<Rightarrow> request list" where
  "requests_of (Crashed e log) = log"
| "requests_of (Finished ms offset reason log) = log"

fun is_listing :: "request \<Rightarrow> bool" where
  "is_listing (Listing url) = True"
| "is_listing (Detail url) = False"

text \<open>
  \<open>scrape_supost\<close>. The date text \<open>oldest_date_str\<close> is today's date minus
  \<open>days_to_check\<close> days printed by \<open>strftime("%a, %b %d")\<close>; the clock is outside the
  program, so \<open>days_ago_str n\<close> stands for that text for \<open>n\<close> days. The parameter
  \<open>logfile_path\<close> is not used by the source function.
\<close>

definition scrape_supost ::
  "http \<Rightarrow> (int \<Rightarrow> string) \<Rightarrow> string list \<Rightarrow> int \<Rightarrow> string \<Rightarrow> run_result" where
  "scrape_supost h days_ago_str keywords days_to_check previous_logfile_contents =
     scrape_loop h keywords days_to_check previous_logfile_contents
       (days_ago_str days_to_check) 0 ''http://supost.com/search/index/5''
       \<lparr>new_matches = [], requests = []\<rparr>"


section \<open>The history file: \<open>read_file_to_string\<close> and \<open>Prepender\<close>\<close>

text \<open>
  The part of the outside world the program touches after the crawl: the log file (absent,
  or present with its text), the messages handed to \<open>send_email\<close>, and the lines
  printed. The file holds the characters written to it (the line separator of the platform
  is taken to be \<open>\n\<close>, so a text-mode write stores the characters as they are; the UTF-8
  encoding is not modelled); a text-mode read returns them through \<open>universal_newlines\<close>,
  both at line 115 (\<open>read_file_to_string\<close>) and at line 63 (\<open>Prepender.__init__\<close>). Input
  and output can fail; which
  calls fail in a run is given by a \<open>faults\<close> value: the read in \<open>read_file_to_string\<close>, the
  read and the opening for writing in \<open>Prepender.__init__\<close>, the write in
  \<open>Prepender.__exit__\<close> (failing after the given number of characters has reached the file),
  and the SMTP conversation.
\<close>

record world =
  logfile :: "string option"
  mail_calls :: "string list"
  printed :: "string list"

record faults =
  load_fails :: bool
  reread_fails :: bool
  open_fails :: bool
  write_fault :: "nat option"
  smtp_fails :: bool

definition read_file_to_string :: "faults \<Rightarrow> world \<Rightarrow> error + string" where
  "read_file_to_string f w =
     (case logfile w of
        Some content \<Rightarrow>
          if load_fails f then Inl IOError else Inr (universal_newlines content)
      | None \<Rightarrow> Inr [])"

text \<open>
  \<open>Prepender\<close>: the object holds the queue of strings to write; its file is the log file,
  opened with mode \<open>w\<close> by \<open>__init__\<close>, which truncates it (or creates it empty).
\<close>

record prepender =
  write_queue :: "string list"

definition Prepender_init :: "faults \<Rightarrow> world \<Rightarrow> error + (prepender \<times> world)" where
  "Prepender_init f w =
     (case logfile w of
        Some content \<Rightarrow>
          if reread_fails f then Inl IOError
          else if open_fails f then Inl IOError
          else Inr (\<lparr>write_queue = splitlines_keepends (universal_newlines content)\<rparr>,
                    w\<lparr>logfile := Some []\<rparr>)
      | None \<Rightarrow>
          if open_fails f then Inl IOError
          else Inr (\<lparr>write_queue = []\<rparr>, w\<lparr>logfile := Some []\<rparr>))"

definition Prepender_write :: "prepender \<Rightarrow> string \<Rightarrow> prepender" where
  "Prepender_write p s = p\<lparr>write_queue := s # write_queue p\<rparr>"

definition Prepender_exit :: "faults \<Rightarrow> prepender \<Rightarrow> world \<Rightarrow> error option \<times> world" where
  "Prepender_exit f p w =
     (if write_queue p \<noteq> [] then
        (case write_fault f of
           Some n \<Rightarrow> (Some IOError, w\<lparr>logfile := Some (take n (concat (write_queue p)))\<rparr>)
         | None \<Rightarrow> (None, w\<lparr>logfile := Some (concat (write_queue p))\<rparr>))
      else (None, w))"


section \<open>Reporting: \<open>output_new_matches\<close>\<close>

text \<open>
  The \<open>with Prepender(logfile_path, encoding="utf-8") as logfile\<close> block of
  \<open>output_new_matches\<close>: construct, write the joined matches, exit.
\<close>

definition with_Prepender :: "faults \<Rightarrow> string list \<Rightarrow> world \<Rightarrow> error option \<times> world" where
  "with_Prepender f matches w =
     (case Prepender_init f w of
        Inl e \<Rightarrow> (Some e, w)
      | Inr (p, w1) \<Rightarrow>
          Prepender_exit f (Prepender_write p (join_nl matches @ [CHR 0x0A])) w1)"

text \<open>
  \<open>create_mail_message\<close>. The text \<open>str(keywords)\<close> (Python's printed form of the list) is
  passed in as \<open>keywords_str\<close>.
\<close>

definition create_mail_message :: "string list \<Rightarrow> string \<Rightarrow> int \<Rightarrow> string \<Rightarrow> string" where
  "create_mail_message matches keywords_str offset previous_logfile_contents =
     ''Keywords used: '' @ keywords_str @ [CHR 0x0A, CHR 0x0A]
     @ ''We checked through '' @ str_int offset @ '' posts, and found ''
     @ str_nat (length matches) @ '' new matches:'' @ [CHR 0x0A]
     @ concat (map (\<lambda>found_link. found_link @ [CHR 0x0A]) matches)
     @ [CHR 0x0A] @ ''Here are your old matches:'' @ [CHR 0x0A]
     @ previous_logfile_contents"

text \<open>\<open>send_email\<close>: the call is recorded with its message; the SMTP exchange may fail.\<close>

definition send_email :: "faults \<Rightarrow> string \<Rightarrow> world \<Rightarrow> error option \<times> world" where
  "send_email f message w =
     (if smtp_fails f then Some SMTPError else None,
      w\<lparr>mail_calls := mail_calls w @ [message]\<rparr>)"

definition output_new_matches ::
  "faults \<Rightarrow> string list \<Rightarrow> string \<Rightarrow> int \<Rightarrow> string \<Rightarrow> world \<Rightarrow> error option \<times> world" where
  "output_new_matches f matches keywords_str offset previous_logfile_contents w =
     (if matches \<noteq> [] then
        (case with_Prepender f matches w of
           (Some e, w1) \<Rightarrow> (Some e, w1)
         | (None, w1) \<Rightarrow>
             (case send_email f
                     (create_mail_message matches keywords_str offset
                        previous_logfile_contents) w1 of
                (Some e, w2) \<Rightarrow> (Some e, w2)
              | (None, w2) \<Rightarrow>
                  (None, w2\<lparr>printed := printed w2 @ [''New matches found. Email sent.'']\<rparr>)))
      else (None, w\<lparr>printed := printed w @ [''No new matches found.'']\<rparr>))"


section \<open>A small site, used to run the model on concrete inputs\<close>

text \<open>
  One listing page with two posts (and two anchors that are not posts); the newer post
  mentions a monitor in capitals. \<open>broken_site\<close> is the same site with a newest post
  whose page mentions a monitor but has no \<open>posttitle\<close> heading.
\<close>

definition demo_listing :: soup where
  "demo_listing =
     \<lparr>anchors = [Some ''/post/index/2'', None, Some ''/about'', Some ''/post/index/1''],
      get_text = ''Mon, Nov 02'', posttitle = None\<rparr>"

definition demo_post2 :: soup where
  "demo_post2 = \<lparr>anchors = [], get_text = ''Dell MONITOR'', posttitle = Some ''Dell''\<rparr>"

definition demo_post1 :: soup where
  "demo_post1 = \<lparr>anchors = [], get_text = ''old monitor'', posttitle = Some ''Foo''\<rparr>"

definition demo_site :: http where
  "demo_site n url =
     (if url = ''http://supost.com/search/index/5'' then Some demo_listing
      else if url = ''http://supost.com/post/index/2'' then Some demo_post2
      else if url = ''http://supost.com/post/index/1'' then Some demo_post1
      else None)"

definition demo_date :: "int \<Rightarrow> string" where
  "demo_date n = ''Mon, Nov 02''"

definition broken_listing :: soup where
  "broken_listing =
     \<lparr>anchors = [Some ''/post/index/3'', Some ''/post/index/2''],
      get_text = ''Mon, Nov 02'', posttitle = None\<rparr>"

definition broken_post3 :: soup where
  "broken_post3 = \<lparr>anchors = [], get_text = ''monitor'', posttitle = None\<rparr>"

definition broken_site :: http where
  "broken_site n url =
     (if url = ''http://supost.com/search/index/5'' then Some broken_listing
      else if url = ''http://supost.com/post/index/3'' then Some broken_post3
      else if url = ''http://supost.com/post/index/2'' then Some demo_post2
      else None)"

text \<open>
  A site with one post whose title heading ends in a carriage return (the markup
  \<open>Foo&#13;\<close> inside the heading gives this text).
\<close>

definition cr_listing :: soup where
  "cr_listing =
     \<lparr>anchors = [Some ''/post/index/1''], get_text = ''Mon, Nov 02'', posttitle = None\<rparr>"

definition cr_post :: soup where
  "cr_post =
     \<lparr>anchors = [], get_text = ''monitor'', posttitle = Some (''Foo'' @ [CHR 0x0D])\<rparr>"

definition cr_site :: http where
  "cr_site n url =
     (if url = ''http://supost.com/search/index/5'' then Some cr_listing
      else if url = ''http://supost.com/post/index/1'' then Some cr_post
      else None)"

text \<open>A site whose listing pages are all empty, whatever the offset.\<close>

definition empty_site :: http where
  "empty_site n url = Some \<lparr>anchors = [], get_text = [], posttitle = None\<rparr>"

text \<open>Two states of the outside world: no log file yet, and a log file with one line.\<close>

definition fresh_world :: world where
  "fresh_world = \<lparr>logfile = None, mail_calls = [], printed = []\<rparr>"

definition old_world :: world where
  "old_world = \<lparr>logfile = Some (''old'' @ [CHR 0x0A]), mail_calls = [], printed = []\<rparr>"

definition no_faults :: faults where
  "no_faults =
     \<lparr>load_fails = False, reread_fails = False, open_fails = False,
      write_fault = None, smtp_fails = False\<rparr>"


section \<open>Properties of the keyword loop and the link loop\<close>

lemma str_in_iff: "str_in s t \<longleftrightarrow> sublist s t"
  by (induction t) (auto simp: sublist_Cons_right)

lemma keyword_loop_no_hit:
  "\<forall>keyword \<in> set kws. \<not> str_in keyword (lower (get_text post_page)) \<Longrightarrow>
     keyword_loop prev href post_page kws acc = KNext acc"
  by (induction kws arbitrary: acc) auto

lemma keyword_loop_extends:
  "keyword_loop prev href post_page kws acc = KNext ms \<or>
   keyword_loop prev href post_page kws acc = KReturn ms \<Longrightarrow> prefix acc ms"
proof (induction kws arbitrary: acc)
  case Nil
  then show ?case by simp
next
  case (Cons k ks)
  then show ?case
    by (auto split: if_splits option.splits dest!: Cons.IH append_prefixD)
qed

lemma keyword_loop_wall:
  assumes "keyword \<in> set kws" "str_in keyword (lower (get_text post_page))"
    and "posttitle post_page = Some post_title"
    and "str_in (post_title @ '': supost.com'' @ target) prev"
  shows "keyword_loop prev (Some target) post_page kws acc = KReturn acc"
  using assms by (induction kws arbitrary: acc) auto

lemma keyword_loop_hit:
  assumes "keyword \<in> set kws" "str_in keyword (lower (get_text post_page))"
  shows "keyword_loop prev href post_page kws acc \<noteq> KNext acc"
  using assms
proof (induction kws arbitrary: acc)
  case Nil
  then show ?case by simp
next
  case (Cons k ks)
  show ?case
  proof (cases "str_in k (lower (get_text post_page))")
    case True
    have longer: "keyword_loop prev href post_page ks (acc @ [x]) \<noteq> KNext acc" for x
    proof
      assume "keyword_loop prev href post_page ks (acc @ [x]) = KNext acc"
      then have "prefix (acc @ [x]) acc"
        using keyword_loop_extends by blast
      then show False
        by (auto dest: prefix_length_le)
    qed
    show ?thesis
      using True longer by (auto split: option.splits)
  next
    case False
    then show ?thesis using Cons by auto
  qed
qed

lemma keyword_loop_lower_only:
  "lower text' = lower (get_text post_page) \<Longrightarrow>
     keyword_loop prev href (post_page\<lparr>get_text := text'\<rparr>) kws acc =
     keyword_loop prev href post_page kws acc"
  by (induction kws arbitrary: acc) (auto split: option.splits)

lemma link_loop_append:
  "link_loop h kws prev (xs @ ys) st =
     (case link_loop h kws prev xs st of
        Continue st1 \<Rightarrow> link_loop h kws prev ys st1
      | Raised e st1 \<Rightarrow> Raised e st1
      | Returned st1 \<Rightarrow> Returned st1)"
  by (induction xs arbitrary: st) (auto split: option.splits kw_flow.splits)


section \<open>The already-seen wall\<close>

text \<open>
  Claim C2. Take any iteration of the crawl loop: the listing page has been fetched, the
  anchors before some candidate link have been worked through without ending the run
  (leaving the state \<open>st1\<close>), and the candidate's page contains a keyword, has a title, and
  its rendered string \<open>title: supost.com/href\<close> occurs in the previous log contents. Then
  \<open>scrape_supost\<close>'s loop returns right there: the matches are exactly those of \<open>st1\<close>,
  the offset is the current one, and the last request of the run is the one for this
  candidate, whatever anchors and listing pages come after.
\<close>

theorem already_seen_wall:
  assumes "h (length (requests st)) link = Some link_page"
    and "anchors link_page = before @ Some target # after"
    and "link_loop h kws prev before (log_request (Listing link) st) = Continue st1"
    and "str_in ''post/index'' target"
    and "h (length (requests st1)) (''http://supost.com'' @ target) = Some post_page"
    and "keyword \<in> set kws" and "str_in keyword (lower (get_text post_page))"
    and "posttitle post_page = Some post_title"
    and "str_in (post_title @ '': supost.com'' @ target) prev"
  shows "scrape_loop h kws days_to_check prev oldest_date_str offset link st =
           Finished (new_matches st1) offset AlreadySeenMatch
             (requests st1 @ [Detail (''http://supost.com'' @ target)])"
proof -
  have "keyword_loop prev (Some target) post_page kws (new_matches st1) =
          KReturn (new_matches st1)"
    using assms(6-9) by (rule keyword_loop_wall)
  then have "link_loop h kws prev (Some target # after) st1 =
          Returned (log_request (Detail (''http://supost.com'' @ target)) st1)"
    using assms(4,5) by (simp add: str_href_def log_request_def)
  then have "link_loop h kws prev (anchors link_page) (log_request (Listing link) st) =
          Returned (log_request (Detail (''http://supost.com'' @ target)) st1)"
    using assms(2,3) by (simp add: link_loop_append)
  then show ?thesis
    using assms(1) by (simp add: scrape_loop.simps log_request_def)
qed

theorem already_seen_wall_witness:
  "scrape_supost demo_site demo_date [''monitor''] 5
     (''Foo: supost.com/post/index/1'' @ [CHR 0x0A]) =
   Finished [''Dell: supost.com/post/index/2''] 0 AlreadySeenMatch
     [Listing ''http://supost.com/search/index/5'',
      Detail ''http://supost.com/post/index/2'',
      Detail ''http://supost.com/post/index/1'']"
proof -
  let ?st = "\<lparr>new_matches = [], requests = []\<rparr>"
  let ?st1 = "\<lparr>new_matches = [''Dell: supost.com/post/index/2''],
               requests = [Listing ''http://supost.com/search/index/5'',
                           Detail ''http://supost.com/post/index/2'']\<rparr>"
  let ?prev = "''Foo: supost.com/post/index/1'' @ [CHR 0x0A]"
  have 1: "demo_site (length (requests ?st)) ''http://supost.com/search/index/5'' =
             Some demo_listing"
    by (simp add: demo_site_def)
  have 2: "anchors demo_listing =
             [Some ''/post/index/2'', None, Some ''/about''] @ Some ''/post/index/1'' # []"
    by (simp add: demo_listing_def)
  have 3: "link_loop demo_site [''monitor''] ?prev
             [Some ''/post/index/2'', None, Some ''/about'']
             (log_request (Listing ''http://supost.com/search/index/5'') ?st) = Continue ?st1"
    by code_simp
  have 4: "str_in ''post/index'' ''/post/index/1''"
    by simp
  have 5: "demo_site (length (requests ?st1)) (''http://supost.com'' @ ''/post/index/1'') =
             Some demo_post1"
    by (simp add: demo_site_def)
  have 6: "''monitor'' \<in> set [''monitor'']"
    by simp
  have 7: "str_in ''monitor'' (lower (get_text demo_post1))"
    by code_simp
  have 8: "posttitle demo_post1 = Some ''Foo''"
    by (simp add: demo_post1_def)
  have 9: "str_in (''Foo'' @ '': supost.com'' @ ''/post/index/1'') ?prev"
    by simp
  show ?thesis
    unfolding scrape_supost_def
    using already_seen_wall [OF 1 2 3 4 5 6 7 8 9, of 5 "demo_date 5" 0]
    by simp
qed


section \<open>Keyword matching\<close>

text \<open>
  The source lowercases the page text and compares the keyword as it is written (line 153).
  The lowercased text contains no letter \<open>A\<close>..\<open>Z\<close>, so a keyword that contains one is never
  found, whatever the page says.
\<close>

lemma lower_char_not_upper:
  "\<not> (65 \<le> (of_char (lower_char c) :: nat) \<and> (of_char (lower_char c) :: nat) \<le> 90)"
  by (auto simp: lower_char_def Let_def)

lemma uppercase_keyword_never_found:
  assumes "c \<in> set keyword" "65 \<le> (of_char c :: nat)" "(of_char c :: nat) \<le> 90"
  shows "\<not> str_in keyword (lower text)"
proof
  assume "str_in keyword (lower text)"
  then have "set keyword \<subseteq> set (lower text)"
    by (auto simp: str_in_iff sublist_def)
  then obtain d where "c = lower_char d"
    using assms(1) by (auto simp: lower_def)
  then show False
    using lower_char_not_upper [of d] assms(2,3) by simp
qed

text \<open>
  Claim C5, at the failing input: the page text \<open>old monitor\<close> is matched by the keyword
  \<open>monitor\<close> (its rendered string is appended) and is not matched by the keyword
  \<open>MONITOR\<close> (nothing is appended), where the claim says that the letter case of the
  keyword makes no difference.
\<close>

theorem uppercase_keyword_misses:
  "keyword_loop [] (Some ''/post/index/1'') demo_post1 [''monitor''] [] =
     KNext [''Foo: supost.com/post/index/1''] \<and>
   keyword_loop [] (Some ''/post/index/1'') demo_post1 [''MONITOR''] [] = KNext []"
  by code_simp


section \<open>Entries per page\<close>

text \<open>
  Claim C6, at a concrete input: with the two keywords \<open>dell\<close> and \<open>monitor\<close>, the single
  page of post 2, whose text contains both, is entered twice in the list of new matches.
  The keyword loop has no \<open>break\<close> after the append.
\<close>

theorem two_keywords_listed_twice:
  "scrape_supost demo_site demo_date [''dell'', ''monitor''] 5 [] =
     Finished [''Dell: supost.com/post/index/2'', ''Dell: supost.com/post/index/2'',
               ''Foo: supost.com/post/index/1''] 0 OldestDateReached
       [Listing ''http://supost.com/search/index/5'',
        Detail ''http://supost.com/post/index/2'',
        Detail ''http://supost.com/post/index/1'']"
  by code_simp


section \<open>A matching page without the title heading\<close>

text \<open>
  Claim C7, at a concrete input: the newest post of \<open>broken_site\<close> mentions a monitor and
  has no \<open>posttitle\<close> heading. The run ends with the \<open>AttributeError\<close> of \<open>None.text\<close>; the
  next candidate, post 2, which matches and has a title, is never requested.
\<close>

theorem missing_heading_counterexample:
  "scrape_supost broken_site demo_date [''monitor''] 5 [] =
     Crashed AttributeError
       [Listing ''http://supost.com/search/index/5'',
        Detail ''http://supost.com/post/index/3'']"
  by code_simp

text \<open>
  Claim C7, amended. At any iteration of the crawl loop, when a candidate's page contains
  a keyword and has no title heading, the run is aborted by the exception at that
  candidate: no list of matches is returned, and the request for this candidate is the
  last request of the run.
\<close>

theorem missing_heading_aborts:
  assumes "h (length (requests st)) link = Some link_page"
    and "anchors link_page = before @ Some target # after"
    and "link_loop h kws prev before (log_request (Listing link) st) = Continue st1"
    and "str_in ''post/index'' target"
    and "h (length (requests st1)) (''http://supost.com'' @ target) = Some post_page"
    and "\<exists>keyword \<in> set kws. str_in keyword (lower (get_text post_page))"
    and "posttitle post_page = None"
  shows "scrape_loop h kws days_to_check prev oldest_date_str offset link st =
           Crashed AttributeError (requests st1 @ [Detail (''http://supost.com'' @ target)])"
proof -
  have "keyword_loop prev (Some target) post_page kws (new_matches st1) = KRaise AttributeError"
    using assms(6,7) by (induction kws) auto
  then have "link_loop h kws prev (Some target # after) st1 =
          Raised AttributeError (log_request (Detail (''http://supost.com'' @ target)) st1)"
    using assms(4,5) by (simp add: str_href_def log_request_def)
  then have "link_loop h kws prev (anchors link_page) (log_request (Listing link) st) =
          Raised AttributeError (log_request (Detail (''http://supost.com'' @ target)) st1)"
    using assms(2,3) by (simp add: link_loop_append)
  then show ?thesis
    using assms(1) by (simp add: scrape_loop.simps log_request_def)
qed

theorem missing_heading_aborts_witness:
  "scrape_loop broken_site [''monitor''] 5 [] (demo_date 5) 0
     ''http://supost.com/search/index/5'' \<lparr>new_matches = [], requests = []\<rparr> =
   Crashed AttributeError
     ([Listing ''http://supost.com/search/index/5'']
        @ [Detail (''http://supost.com'' @ ''/post/index/3'')])"
proof -
  let ?st = "\<lparr>new_matches = [], requests = []\<rparr>"
  let ?st1 = "\<lparr>new_matches = [], requests = [Listing ''http://supost.com/search/index/5'']\<rparr>"
  have 1: "broken_site (length (requests ?st)) ''http://supost.com/search/index/5'' =
             Some broken_listing"
    by (simp add: broken_site_def)
  have 2: "anchors broken_listing = [] @ Some ''/post/index/3'' # [Some ''/post/index/2'']"
    by (simp add: broken_listing_def)
  have 3: "link_loop broken_site [''monitor''] [] []
             (log_request (Listing ''http://supost.com/search/index/5'') ?st) = Continue ?st1"
    by (simp add: log_request_def)
  have 4: "str_in ''post/index'' ''/post/index/3''"
    by simp
  have 5: "broken_site (length (requests ?st1)) (''http://supost.com'' @ ''/post/index/3'') =
             Some broken_post3"
    by (simp add: broken_site_def)
  have 6: "\<exists>keyword \<in> set [''monitor'']. str_in keyword (lower (get_text broken_post3))"
    by code_simp
  have 7: "posttitle broken_post3 = None"
    by (simp add: broken_post3_def)
  show ?thesis
    using missing_heading_aborts [OF 1 2 3 4 5 6 7, of 5 "demo_date 5" 0]
    by simp
qed


section \<open>The first run: an empty history\<close>










section \<open>The crawl is bounded\<close>

lemma link_loop_listing:
  "link_loop h kws prev links st = Raised e st' \<or>
   link_loop h kws prev links st = Returned st' \<or>
   link_loop h kws prev links st = Continue st' \<Longrightarrow>
   filter is_listing (requests st') = filter is_listing (requests st)"
proof (induction links arbitrary: st)
  case Nil
  then show ?case by auto
next
  case (Cons a links)
  then show ?case
    by (fastforce split: if_splits option.splits kw_flow.splits simp: log_request_def)
qed

lemma link_loop_listing_count:
  assumes "link_loop h kws prev links (log_request (Listing link) st) = Raised e st' \<or>
           link_loop h kws prev links (log_request (Listing link) st) = Returned st' \<or>
           link_loop h kws prev links (log_request (Listing link) st) = Continue st'"
  shows "length (filter is_listing (requests st')) =
           Suc (length (filter is_listing (requests st)))"
  using link_loop_listing [OF assms] by (simp add: log_request_def)

lemma offset_step:
  assumes "0 \<le> offset" "99 dvd offset" "\<not> offset + 99 > 99 * 2 * d"
    "int n = offset div 99"
  shows "0 \<le> offset + 99" "99 dvd (offset + 99)" "offset + 99 \<le> 99 * 2 * d"
    "int (Suc n) = (offset + 99) div 99"
  using assms by auto

lemma offset_last:
  assumes "(99::int) dvd offset" "offset \<le> 99 * 2 * d" "offset + 99 > 99 * 2 * d"
  shows "offset = 99 * 2 * d"
proof -
  obtain k where k: "offset = 99 * k" using assms(1) by (elim dvdE)
  have "k \<le> 2 * d" "k + 1 > 2 * d" using assms(2,3) unfolding k by auto
  then show ?thesis unfolding k by simp
qed

lemma scrape_loop_listing_bound:
  assumes "0 \<le> offset" "OFFSET_INCREASE dvd offset" "offset \<le> OFFSET_INCREASE * 2 * d"
    and "int (length (filter is_listing (requests st))) = offset div OFFSET_INCREASE"
  shows "length (filter is_listing
           (requests_of (scrape_loop h kws d prev oldest offset link st))) \<le> nat (2 * d + 1)"
  using assms
proof (induction h kws d prev oldest offset link st rule: scrape_loop.induct)
  case (1 h kws d prev oldest offset link st)
  have n: "Suc (length (filter is_listing (requests st))) \<le> nat (2 * d + 1)"
    using "1.prems" by (auto simp: OFFSET_INCREASE_def)
  show ?case
  proof (cases "h (length (requests st)) link")
    case None
    then show ?thesis
      using n by (subst scrape_loop.simps) (simp add: log_request_def)
  next
    case (Some link_page)
    show ?thesis
    proof (cases "link_loop h kws prev (anchors link_page) (log_request (Listing link) st)")
      case (Raised e st')
      then show ?thesis
        using Some n link_loop_listing_count [of h kws prev "anchors link_page" link st e st']
        by (subst scrape_loop.simps) simp
    next
      case (Returned st')
      then show ?thesis
        using Some n link_loop_listing_count [of h kws prev "anchors link_page" link st _ st']
        by (subst scrape_loop.simps) simp
    next
      case (Continue st')
      have c: "length (filter is_listing (requests st')) =
                 Suc (length (filter is_listing (requests st)))"
        using Continue link_loop_listing_count [of h kws prev "anchors link_page" link st _ st']
        by simp
      show ?thesis
      proof (cases "str_in oldest (get_text link_page) \<or>
                    offset + OFFSET_INCREASE > OFFSET_INCREASE * 2 * d")
        case True
        then show ?thesis
          using Some Continue n c by (subst scrape_loop.simps) auto
      next
        case False
        have "length (filter is_listing (requests_of
                (scrape_loop h kws d prev oldest (offset + OFFSET_INCREASE)
                   (''http://supost.com/search/index/5?offset=''
                      @ str_int (offset + OFFSET_INCREASE)) st'))) \<le> nat (2 * d + 1)"
          using "1.IH" [OF Some Continue] False "1.prems" c
            offset_step [of offset d "length (filter is_listing (requests st))"]
          by (simp add: OFFSET_INCREASE_def)
        then show ?thesis
          using Some Continue False by (subst scrape_loop.simps) simp
      qed
    qed
  qed
qed


lemma scrape_loop_offset_bound:
  assumes "0 \<le> offset" "OFFSET_INCREASE dvd offset" "offset \<le> OFFSET_INCREASE * 2 * d"
    and "int (length (filter is_listing (requests st))) = offset div OFFSET_INCREASE"
    and "scrape_loop h kws d prev oldest offset link st = Finished ms off r log"
  shows "0 \<le> off \<and> off \<le> OFFSET_INCREASE * 2 * d \<and> OFFSET_INCREASE dvd off \<and>
         int (length (filter is_listing log)) = off div OFFSET_INCREASE + 1 \<and>
         (r = OffsetBoundExceeded \<longrightarrow> off = OFFSET_INCREASE * 2 * d)"
  using assms
proof (induction h kws d prev oldest offset link st rule: scrape_loop.induct)
  case (1 h kws d prev oldest offset link st)
  from "1.prems"(5) obtain link_page where
    Some: "h (length (requests st)) link = Some link_page"
    by (subst (asm) scrape_loop.simps) (auto split: option.splits)
  show ?case
  proof (cases "link_loop h kws prev (anchors link_page) (log_request (Listing link) st)")
    case (Raised e st')
    then show ?thesis
      using "1.prems"(5) Some by (subst (asm) scrape_loop.simps) simp
  next
    case (Returned st')
    have "length (filter is_listing (requests st')) =
            Suc (length (filter is_listing (requests st)))"
      using Returned link_loop_listing_count [of h kws prev "anchors link_page" link st _ st']
      by simp
    moreover have "off = offset" "r = AlreadySeenMatch" "log = requests st'"
      using "1.prems"(5) Some Returned by (subst (asm) scrape_loop.simps, simp)+
    ultimately show ?thesis
      using "1.prems"(1-4) by simp
  next
    case (Continue st')
    have c: "length (filter is_listing (requests st')) =
               Suc (length (filter is_listing (requests st)))"
      using Continue link_loop_listing_count [of h kws prev "anchors link_page" link st _ st']
      by simp
    show ?thesis
    proof (cases "str_in oldest (get_text link_page)")
      case True
      have "off = offset" "r = OldestDateReached" "log = requests st'"
        using "1.prems"(5) Some Continue True by (subst (asm) scrape_loop.simps, simp)+
      then show ?thesis
        using "1.prems"(1-4) c by simp
    next
      case False
      note no_date = False
      show ?thesis
      proof (cases "offset + OFFSET_INCREASE > OFFSET_INCREASE * 2 * d")
        case True
        have "off = offset" "log = requests st'"
          using "1.prems"(5) Some Continue no_date True
          by (subst (asm) scrape_loop.simps, simp)+
        moreover have "offset = OFFSET_INCREASE * 2 * d"
          using offset_last [of offset d] "1.prems"(2,3) True
          by (simp add: OFFSET_INCREASE_def)
        ultimately show ?thesis
          using "1.prems"(1-4) c by simp
      next
        case False
        have rec: "scrape_loop h kws d prev oldest (offset + OFFSET_INCREASE)
                     (''http://supost.com/search/index/5?offset=''
                        @ str_int (offset + OFFSET_INCREASE)) st' = Finished ms off r log"
          using "1.prems"(5) Some Continue no_date False
          by (subst (asm) scrape_loop.simps) simp
        show ?thesis
          using "1.IH" [OF Some Continue no_date False _ _ _ _ rec] False "1.prems"(1-4) c
            offset_step [of offset d "length (filter is_listing (requests st))"]
          by (simp add: OFFSET_INCREASE_def)
      qed
    qed
  qed
qed


text \<open>
  Claim C8. \<open>scrape_loop\<close> is a total function: its termination is proved above from the
  distance between the offset and \<open>OFFSET_INCREASE * 2 * days_to_check\<close>, so every run
  ends, whatever the site answers. For \<open>days_to_check\<close> at least 1, a run requests at most
  \<open>2 * days_to_check + 1\<close> listing pages (also when it ends with an exception); when it
  returns, the offset is a multiple of \<open>OFFSET_INCREASE\<close> between 0 and
  \<open>OFFSET_INCREASE * 2 * days_to_check\<close>, one step of \<open>OFFSET_INCREASE\<close> was taken per
  listing page after the first, and a return at the offset ceiling happens exactly at the
  largest offset, the one whose successor would exceed the bound.
\<close>

theorem crawl_bounded:
  assumes "1 \<le> days_to_check"
  shows "length (filter is_listing
           (requests_of (scrape_supost h days_ago_str kws days_to_check prev)))
           \<le> nat (2 * days_to_check + 1) \<and>
         (scrape_supost h days_ago_str kws days_to_check prev = Finished ms offset reason log
            \<longrightarrow> 0 \<le> offset \<and> offset \<le> OFFSET_INCREASE * 2 * days_to_check \<and>
                OFFSET_INCREASE dvd offset \<and>
                int (length (filter is_listing log)) = offset div OFFSET_INCREASE + 1 \<and>
                (reason = OffsetBoundExceeded
                   \<longrightarrow> offset = OFFSET_INCREASE * 2 * days_to_check))"
proof -
  have start: "(0::int) \<le> 0" "OFFSET_INCREASE dvd 0"
    "0 \<le> OFFSET_INCREASE * 2 * days_to_check"
    "int (length (filter is_listing (requests \<lparr>new_matches = [], requests = []\<rparr>))) =
       0 div OFFSET_INCREASE"
    using assms by (simp_all add: OFFSET_INCREASE_def)
  show ?thesis
    unfolding scrape_supost_def
    using scrape_loop_listing_bound [OF start] scrape_loop_offset_bound [OF start]
    by blast
qed


theorem crawl_bounded_witness:
  "(1::int) \<le> 1 \<and>
   scrape_supost empty_site demo_date [''monitor''] 1 [] =
     Finished [] 198 OffsetBoundExceeded
       [Listing ''http://supost.com/search/index/5'',
        Listing ''http://supost.com/search/index/5?offset=99'',
        Listing ''http://supost.com/search/index/5?offset=198''] \<and>
   length (filter is_listing
     (requests_of (scrape_supost empty_site demo_date [''monitor''] 1 []))) \<le> nat (2 * 1 + 1) \<and>
   (198::int) = OFFSET_INCREASE * 2 * 1"
proof -
  have h: "(1::int) \<le> 1"
    by simp
  have run: "scrape_supost empty_site demo_date [''monitor''] 1 [] =
     Finished [] 198 OffsetBoundExceeded
       [Listing ''http://supost.com/search/index/5'',
        Listing ''http://supost.com/search/index/5?offset=99'',
        Listing ''http://supost.com/search/index/5?offset=198'']"
    by code_simp
  show ?thesis
    using crawl_bounded [OF h, of empty_site demo_date "[''monitor'']" "[]" "[]" 198
        OffsetBoundExceeded
        "[Listing ''http://supost.com/search/index/5'',
          Listing ''http://supost.com/search/index/5?offset=99'',
          Listing ''http://supost.com/search/index/5?offset=198'']"] run
    by simp
qed


section \<open>Prepending to the history file\<close>

lemma concat_splitlines_from: "concat (splitlines_from cur s) = cur @ s"
  by (induction cur s rule: splitlines_from.induct) (auto split: list.splits)

lemma concat_splitlines_keepends: "concat (splitlines_keepends s) = s"
  by (simp add: splitlines_keepends_def concat_splitlines_from)

lemma join_nl_lines:
  "ms \<noteq> [] \<Longrightarrow> join_nl ms @ [CHR 0x0A] = concat (map (\<lambda>m. m @ [CHR 0x0A]) ms)"
  by (induction ms rule: join_nl.induct) auto

lemma universal_newlines_no_cr: "CHR 0x0D \<notin> set (universal_newlines s)"
  by (induction s rule: universal_newlines.induct) (auto split: list.splits)

lemma universal_newlines_id: "CHR 0x0D \<notin> set s \<Longrightarrow> universal_newlines s = s"
  by (induction s rule: universal_newlines.induct) (auto split: list.splits)

lemma join_nl_no_cr:
  "\<forall>m \<in> set ms. CHR 0x0D \<notin> set m \<Longrightarrow> CHR 0x0D \<notin> set (join_nl ms)"
  by (induction ms rule: join_nl.induct) auto

lemma with_Prepender_ok:
  assumes "\<not> reread_fails f" "\<not> open_fails f" "write_fault f = None"
  shows "with_Prepender f ms w =
           (None, w\<lparr>logfile := Some (join_nl ms @ [CHR 0x0A]
                      @ (case logfile w of None \<Rightarrow> []
                         | Some content \<Rightarrow> universal_newlines content))\<rparr>)"
  using assms
  by (auto simp: with_Prepender_def Prepender_init_def Prepender_write_def Prepender_exit_def
        concat_splitlines_keepends split: option.splits)

text \<open>
  When no new line contains a carriage return, the round trip is exact: the log file is
  read, rewritten by the \<open>with Prepender\<close> block with no read, open or write failing, and
  read back as the new matches in list order, each followed by a newline, followed by the
  text read before.
\<close>

lemma prepend_then_read_without_cr:
  assumes "read_file_to_string f w = Inr previous"
    and "ms \<noteq> []"
    and "\<forall>m \<in> set ms. CHR 0x0D \<notin> set m"
    and "\<not> load_fails f" "\<not> reread_fails f" "\<not> open_fails f" "write_fault f = None"
  shows "\<exists>w'. with_Prepender f ms w = (None, w') \<and>
              read_file_to_string f w' =
                Inr (concat (map (\<lambda>m. m @ [CHR 0x0A]) ms) @ previous)"
proof -
  have previous: "previous = (case logfile w of None \<Rightarrow> []
                              | Some content \<Rightarrow> universal_newlines content)"
    using assms(1,4) by (auto simp: read_file_to_string_def split: option.splits)
  then have "CHR 0x0D \<notin> set previous"
    by (auto simp: universal_newlines_no_cr split: option.splits)
  then have "CHR 0x0D \<notin> set (join_nl ms @ [CHR 0x0A] @ previous)"
    using join_nl_no_cr [OF assms(3)] by simp
  then have "universal_newlines (join_nl ms @ [CHR 0x0A] @ previous) =
               join_nl ms @ [CHR 0x0A] @ previous"
    by (rule universal_newlines_id)
  then show ?thesis
    using with_Prepender_ok [OF assms(5-7), of ms w] assms(2,4) join_nl_lines [of ms] previous
    by (simp add: read_file_to_string_def)
qed

text \<open>
  Claim C3, at the failing input: the log file holds the line \<open>old\<close> and the one new line is
  \<open>a\rb\<close>. The block writes \<open>a\rb\nold\n\<close>; the file is read back as \<open>a\nb\nold\n\<close>, which
  is not the new line followed by the previous content \<open>old\n\<close>: the carriage return of the
  new line has become a line feed.
\<close>

theorem carriage_return_not_read_back:
  "with_Prepender no_faults [''a'' @ [CHR 0x0D] @ ''b''] old_world =
     (None, \<lparr>logfile = Some (''a'' @ [CHR 0x0D] @ ''b'' @ [CHR 0x0A] @ ''old'' @ [CHR 0x0A]),
             mail_calls = [], printed = []\<rparr>) \<and>
   read_file_to_string no_faults old_world = Inr (''old'' @ [CHR 0x0A]) \<and>
   read_file_to_string no_faults
     \<lparr>logfile = Some (''a'' @ [CHR 0x0D] @ ''b'' @ [CHR 0x0A] @ ''old'' @ [CHR 0x0A]),
      mail_calls = [], printed = []\<rparr> =
     Inr (''a'' @ [CHR 0x0A] @ ''b'' @ [CHR 0x0A] @ ''old'' @ [CHR 0x0A])"
  by (simp add: with_Prepender_def Prepender_init_def Prepender_write_def Prepender_exit_def
        no_faults_def old_world_def splitlines_keepends_def is_linebreak_def
        read_file_to_string_def)


section \<open>The rewrite is not atomic\<close>





section \<open>Delivery comes after the history rewrite\<close>

text \<open>
  Claim C9. In every run of \<open>output_new_matches\<close>: with no new matches \<open>send_email\<close> is not
  called; when the \<open>with Prepender\<close> block ends with an error \<open>send_email\<close> is not called;
  and when \<open>send_email\<close> is called, the list of new matches is not empty, the block has
  completed without error, the log file already holds the new lines followed by its
  previous content (as \<open>Prepender.__init__\<close> read it), and exactly one message, the composed
  mail, was handed over.
\<close>

theorem delivery_guard:
  assumes "output_new_matches f ms keywords_str offset prev w = (res, w')"
  shows "(ms = [] \<longrightarrow> mail_calls w' = mail_calls w) \<and>
         (fst (with_Prepender f ms w) \<noteq> None \<longrightarrow> mail_calls w' = mail_calls w) \<and>
         (mail_calls w' \<noteq> mail_calls w \<longrightarrow>
            ms \<noteq> [] \<and> fst (with_Prepender f ms w) = None \<and>
            logfile w' = Some (join_nl ms @ [CHR 0x0A]
                           @ (case logfile w of None \<Rightarrow> []
                              | Some content \<Rightarrow> universal_newlines content)) \<and>
            mail_calls w' = mail_calls w @ [create_mail_message ms keywords_str offset prev])"
  using assms
  by (auto simp: output_new_matches_def send_email_def
        with_Prepender_def Prepender_init_def Prepender_write_def Prepender_exit_def
        concat_splitlines_keepends split: option.splits if_splits prod.splits)

theorem delivery_guard_witness:
  "mail_calls (snd (output_new_matches no_faults [''a''] ''k'' 0 [] fresh_world)) =
     mail_calls fresh_world @ [create_mail_message [''a''] ''k'' 0 []] \<and>
   logfile (snd (output_new_matches no_faults [''a''] ''k'' 0 [] fresh_world)) =
     Some (''a'' @ [CHR 0x0A]) \<and>
   fst (with_Prepender no_faults [''a''] fresh_world) = None"
proof -
  let ?r = "output_new_matches no_faults [''a''] ''k'' 0 [] fresh_world"
  have run: "output_new_matches no_faults [''a''] ''k'' 0 [] fresh_world = (fst ?r, snd ?r)"
    by simp
  have sent: "mail_calls (snd ?r) \<noteq> mail_calls fresh_world"
    by code_simp
  have old: "logfile fresh_world = None"
    by (simp add: fresh_world_def)
  have new: "join_nl [''a''] = ''a''"
    by simp
  from delivery_guard [OF run] sent
  have "[''a''] \<noteq> [] \<and> fst (with_Prepender no_faults [''a''] fresh_world) = None \<and>
        logfile (snd ?r) = Some (join_nl [''a''] @ [CHR 0x0A]
           @ (case logfile fresh_world of None \<Rightarrow> []
              | Some content \<Rightarrow> universal_newlines content)) \<and>
        mail_calls (snd ?r) = mail_calls fresh_world @ [create_mail_message [''a''] ''k'' 0 []]"
    by blast
  then show ?thesis
    unfolding old new by simp
qed


section \<open>Running twice\<close>

lemma sublist_grow: "sublist m t \<Longrightarrow> sublist m (p @ t @ q)"
proof -
  assume "sublist m t"
  then obtain ps ss where "t = ps @ m @ ss"
    by (auto simp: sublist_def)
  then have "p @ t @ q = (p @ ps) @ m @ (ss @ q)"
    by simp
  then show ?thesis
    unfolding sublist_def by blast
qed

lemma str_in_join_nl: "m \<in> set ms \<Longrightarrow> str_in m (join_nl ms)"
proof (induction ms rule: join_nl.induct)
  case 1
  then show ?case by simp
next
  case (2 x)
  then show ?case by (simp add: str_in_iff)
next
  case (3 x y ys)
  show ?case
  proof (cases "m = x")
    case True
    then show ?thesis by (simp add: str_in_iff)
  next
    case False
    then have "sublist m (join_nl (y # ys))"
      using 3 by (simp add: str_in_iff)
    then have "sublist m ((x @ [CHR 0x0A]) @ join_nl (y # ys) @ [])"
      by (rule sublist_grow)
    then show ?thesis by (simp add: str_in_iff)
  qed
qed

lemma keyword_loop_second_run:
  assumes sub: "\<And>x. str_in x P1 \<Longrightarrow> str_in x P2"
    and "keyword_loop P1 href post_page kws acc = R1"
    and "R1 = KReturn ms1 \<or> R1 = KNext ms1"
    and "\<forall>m \<in> set ms1. str_in m P2"
  shows "keyword_loop P2 href post_page kws acc = KReturn acc \<or>
         (R1 = KNext acc \<and> keyword_loop P2 href post_page kws acc = KNext acc)"
  using assms(2-4)
proof (induction kws arbitrary: acc)
  case Nil
  then show ?case by auto
next
  case (Cons k ks)
  show ?case
  proof (cases "str_in k (lower (get_text post_page))")
    case False
    then show ?thesis using Cons by simp
  next
    case True
    from True Cons.prems(1,2) obtain post_title target where
      t: "posttitle post_page = Some post_title" and a: "href = Some target"
      by (auto split: option.splits)
    let ?out = "post_title @ '': supost.com'' @ target"
    show ?thesis
    proof (cases "str_in ?out P1")
      case True
      then show ?thesis
        using \<open>str_in k (lower (get_text post_page))\<close> t a sub by simp
    next
      case False
      then have "keyword_loop P1 href post_page ks (acc @ [?out]) = R1"
        using \<open>str_in k (lower (get_text post_page))\<close> t a Cons.prems(1) by simp
      then have "prefix (acc @ [?out]) ms1"
        using Cons.prems(2) keyword_loop_extends by blast
      then have "?out \<in> set ms1"
        by (auto simp: prefix_def)
      then have "str_in ?out P2"
        using Cons.prems(3) by blast
      then show ?thesis
        using \<open>str_in k (lower (get_text post_page))\<close> t a by simp
    qed
  qed
qed

lemma link_loop_mono:
  "link_loop h kws prev links st = Returned st1 \<or>
   link_loop h kws prev links st = Continue st1 \<Longrightarrow>
   prefix (new_matches st) (new_matches st1)"
proof (induction links arbitrary: st)
  case Nil
  then show ?case by auto
next
  case (Cons a links)
  show ?case
  proof (cases "str_in ''post/index'' (str_href a)")
    case False
    then show ?thesis using Cons by simp
  next
    case True
    let ?st' = "log_request (Detail (''http://supost.com'' @ str_href a)) st"
    from True Cons.prems obtain post_page where
      p: "h (length (requests st)) (''http://supost.com'' @ str_href a) = Some post_page"
      by (auto split: option.splits)
    show ?thesis
    proof (cases "keyword_loop prev a post_page kws (new_matches st)")
      case (KRaise e)
      then show ?thesis using True p Cons.prems by simp
    next
      case (KReturn ms)
      then have "prefix (new_matches st) ms"
        using keyword_loop_extends by blast
      then show ?thesis using True p KReturn Cons.prems by auto
    next
      case (KNext ms)
      then have "prefix (new_matches st) ms"
        using keyword_loop_extends by blast
      moreover have "prefix (new_matches (?st'\<lparr>new_matches := ms\<rparr>)) (new_matches st1)"
        using True p KNext Cons.prems by (intro Cons.IH) simp
      ultimately show ?thesis
        using prefix_order.trans by fastforce
    qed
  qed
qed


lemma link_loop_second_run:
  assumes sub: "\<And>x. str_in x P1 \<Longrightarrow> str_in x P2"
    and "link_loop h kws P1 links st = X1"
    and "X1 = Returned st1 \<or> X1 = Continue st1"
    and "\<forall>m \<in> set (new_matches st1). str_in m P2"
  shows "(\<exists>st2. link_loop h kws P2 links st = Returned st2 \<and>
                new_matches st2 = new_matches st) \<or>
         (X1 = Continue st1 \<and> link_loop h kws P2 links st = Continue st1 \<and>
          new_matches st1 = new_matches st)"
  using assms(2-4)
proof (induction links arbitrary: st)
  case Nil
  then show ?case by auto
next
  case (Cons a links)
  show ?case
  proof (cases "str_in ''post/index'' (str_href a)")
    case False
    then show ?thesis using Cons by simp
  next
    case True
    let ?st' = "log_request (Detail (''http://supost.com'' @ str_href a)) st"
    from True Cons.prems(1,2) obtain post_page where
      p: "h (length (requests st)) (''http://supost.com'' @ str_href a) = Some post_page"
      by (auto split: option.splits)
    show ?thesis
    proof (cases "keyword_loop P1 a post_page kws (new_matches st)")
      case (KRaise e)
      then show ?thesis using True p Cons.prems(1,2) by auto
    next
      case (KReturn ms)
      then have "st1 = ?st'\<lparr>new_matches := ms\<rparr>"
        using True p Cons.prems(1,2) by auto
      then have "\<forall>m \<in> set ms. str_in m P2"
        using Cons.prems(3) by simp
      then have "keyword_loop P2 a post_page kws (new_matches st) = KReturn (new_matches st)"
        using keyword_loop_second_run [OF sub KReturn, of ms] by simp
      then show ?thesis
        using True p by (simp add: log_request_def)
    next
      case (KNext ms)
      then have rest: "link_loop h kws P1 links (?st'\<lparr>new_matches := ms\<rparr>) = X1"
        using True p Cons.prems(1) by simp
      then have "prefix ms (new_matches st1)"
        using Cons.prems(2) link_loop_mono [of h kws P1 links "?st'\<lparr>new_matches := ms\<rparr>" st1]
        by auto
      then have "\<forall>m \<in> set ms. str_in m P2"
        using Cons.prems(3) by (auto simp: prefix_def)
      then consider
          (wall) "keyword_loop P2 a post_page kws (new_matches st) = KReturn (new_matches st)"
        | (same) "ms = new_matches st"
            "keyword_loop P2 a post_page kws (new_matches st) = KNext (new_matches st)"
        using keyword_loop_second_run [OF sub KNext, of ms] by auto
      then show ?thesis
      proof cases
        case wall
        then show ?thesis
          using True p by (simp add: log_request_def)
      next
        case same
        have "(\<exists>st2. link_loop h kws P2 links (?st'\<lparr>new_matches := ms\<rparr>) = Returned st2 \<and>
                 new_matches st2 = new_matches (?st'\<lparr>new_matches := ms\<rparr>)) \<or>
              (X1 = Continue st1 \<and>
               link_loop h kws P2 links (?st'\<lparr>new_matches := ms\<rparr>) = Continue st1 \<and>
               new_matches st1 = new_matches (?st'\<lparr>new_matches := ms\<rparr>))"
          using rest Cons.prems(2,3) by (rule Cons.IH)
        then show ?thesis
          using True p same by (simp add: log_request_def)
      qed
    qed
  qed
qed

lemma scrape_loop_mono:
  "scrape_loop h kws d prev oldest offset link st = Finished ms off r log \<Longrightarrow>
   prefix (new_matches st) ms"
proof (induction h kws d prev oldest offset link st rule: scrape_loop.induct)
  case (1 h kws d prev oldest offset link st)
  from "1.prems" obtain link_page where
    Some: "h (length (requests st)) link = Some link_page"
    by (subst (asm) scrape_loop.simps) (auto split: option.splits)
  have start: "new_matches (log_request (Listing link) st) = new_matches st"
    by (simp add: log_request_def)
  show ?case
  proof (cases "link_loop h kws prev (anchors link_page) (log_request (Listing link) st)")
    case (Raised e st')
    then show ?thesis
      using "1.prems" Some by (subst (asm) scrape_loop.simps) simp
  next
    case (Returned st')
    then have "prefix (new_matches st) (new_matches st')"
      using link_loop_mono [of h kws prev "anchors link_page" "log_request (Listing link) st" st']
        start by simp
    moreover have "ms = new_matches st'"
      using "1.prems" Some Returned by (subst (asm) scrape_loop.simps) simp
    ultimately show ?thesis by simp
  next
    case (Continue st')
    then have pre: "prefix (new_matches st) (new_matches st')"
      using link_loop_mono [of h kws prev "anchors link_page" "log_request (Listing link) st" st']
        start by simp
    show ?thesis
    proof (cases "str_in oldest (get_text link_page) \<or>
                  offset + OFFSET_INCREASE > OFFSET_INCREASE * 2 * d")
      case True
      then have "ms = new_matches st'"
        using "1.prems" Some Continue
        by (subst (asm) scrape_loop.simps) (auto split: if_splits)
      then show ?thesis using pre by simp
    next
      case False
      then have "scrape_loop h kws d prev oldest (offset + OFFSET_INCREASE)
                   (''http://supost.com/search/index/5?offset=''
                      @ str_int (offset + OFFSET_INCREASE)) st' = Finished ms off r log"
        using "1.prems" Some Continue by (subst (asm) scrape_loop.simps) simp
      then have "prefix (new_matches st') ms"
        using "1.IH" [OF Some Continue] False by simp
      then show ?thesis
        using pre prefix_order.trans by blast
    qed
  qed
qed


lemma scrape_loop_second_run:
  assumes sub: "\<And>x. str_in x P1 \<Longrightarrow> str_in x P2"
    and "scrape_loop h kws d P1 oldest offset link st = Finished ms off r log"
    and "\<forall>m \<in> set ms. str_in m P2"
  shows "\<exists>off2 r2 log2.
           scrape_loop h kws d P2 oldest offset link st = Finished (new_matches st) off2 r2 log2"
  using assms
proof (induction h kws d P1 oldest offset link st rule: scrape_loop.induct)
  case (1 h kws d P1 oldest offset link st)
  note sub = "1.prems"(1)
  note run = "1.prems"(2)
  note all = "1.prems"(3)
  from run obtain link_page where
    Some: "h (length (requests st)) link = Some link_page"
    by (subst (asm) scrape_loop.simps) (auto split: option.splits)
  let ?st0 = "log_request (Listing link) st"
  have start: "new_matches ?st0 = new_matches st"
    by (simp add: log_request_def)
  show ?case
  proof (cases "link_loop h kws P1 (anchors link_page) ?st0")
    case (Raised e st')
    then show ?thesis
      using run Some by (subst (asm) scrape_loop.simps) simp
  next
    case (Returned st')
    have "ms = new_matches st'"
      using run Some Returned by (subst (asm) scrape_loop.simps) simp
    then have "\<forall>m \<in> set (new_matches st'). str_in m P2"
      using all by simp
    then obtain st2 where
      "link_loop h kws P2 (anchors link_page) ?st0 = Returned st2"
      "new_matches st2 = new_matches st"
      using link_loop_second_run [OF sub Returned, of st'] start by auto
    then show ?thesis
      using Some by (subst scrape_loop.simps) simp
  next
    case (Continue st')
    have covered: "\<forall>m \<in> set (new_matches st'). str_in m P2"
    proof (cases "str_in oldest (get_text link_page) \<or>
                  offset + OFFSET_INCREASE > OFFSET_INCREASE * 2 * d")
      case True
      then have "ms = new_matches st'"
        using run Some Continue
        by (subst (asm) scrape_loop.simps) (auto split: if_splits)
      then show ?thesis using all by simp
    next
      case False
      then have "scrape_loop h kws d P1 oldest (offset + OFFSET_INCREASE)
                   (''http://supost.com/search/index/5?offset=''
                      @ str_int (offset + OFFSET_INCREASE)) st' = Finished ms off r log"
        using run Some Continue by (subst (asm) scrape_loop.simps) simp
      then have "prefix (new_matches st') ms"
        by (rule scrape_loop_mono)
      then show ?thesis
        using all by (auto simp: prefix_def)
    qed
    then consider
        (wall) st2 where "link_loop h kws P2 (anchors link_page) ?st0 = Returned st2"
          "new_matches st2 = new_matches st"
      | (same) "link_loop h kws P2 (anchors link_page) ?st0 = Continue st'"
          "new_matches st' = new_matches st"
      using link_loop_second_run [OF sub Continue, of st'] start by auto
    then show ?thesis
    proof cases
      case wall
      then show ?thesis
        using Some by (subst scrape_loop.simps) simp
    next
      case same
      show ?thesis
      proof (cases "str_in oldest (get_text link_page) \<or>
                    offset + OFFSET_INCREASE > OFFSET_INCREASE * 2 * d")
        case True
        then show ?thesis
          using Some same by (subst scrape_loop.simps) auto
      next
        case False
        then have "scrape_loop h kws d P1 oldest (offset + OFFSET_INCREASE)
                     (''http://supost.com/search/index/5?offset=''
                        @ str_int (offset + OFFSET_INCREASE)) st' = Finished ms off r log"
          using run Some Continue by (subst (asm) scrape_loop.simps) simp
        then have "\<exists>off2 r2 log2.
            scrape_loop h kws d P2 oldest (offset + OFFSET_INCREASE)
              (''http://supost.com/search/index/5?offset=''
                 @ str_int (offset + OFFSET_INCREASE)) st' =
            Finished (new_matches st') off2 r2 log2"
          using "1.IH" [OF Some Continue _ _ sub] False all by simp
        then show ?thesis
          using Some same False by (subst scrape_loop.simps) simp
      qed
    qed
  qed
qed

text \<open>
  When no new match contains a carriage return, a second run finds nothing: let a run read
  the log file, crawl, and return the list \<open>ms\<close> of new matches; let \<open>output_new_matches\<close>
  rewrite the log file, no read, open or write of the file failing (the mail may fail).
  A second crawl of the same site, with the same date text, keywords and number of days,
  started from the log file as it is then read, returns the empty list.
\<close>

lemma second_run_finds_nothing_without_cr:
  assumes "read_file_to_string f w = Inr prev"
    and "scrape_supost h days_ago_str kws days_to_check prev = Finished ms offset reason log"
    and "\<forall>m \<in> set ms. CHR 0x0D \<notin> set m"
    and "output_new_matches f ms keywords_str offset prev w = (res, w')"
    and "\<not> load_fails f" "\<not> reread_fails f" "\<not> open_fails f" "write_fault f = None"
    and "read_file_to_string f w' = Inr prev'"
  shows "\<exists>offset' reason' log'.
           scrape_supost h days_ago_str kws days_to_check prev' =
             Finished [] offset' reason' log'"
proof -
  have prev: "prev = (case logfile w of None \<Rightarrow> []
                      | Some content \<Rightarrow> universal_newlines content)"
    using assms(1,5) by (auto simp: read_file_to_string_def split: option.splits)
  then have "CHR 0x0D \<notin> set prev"
    by (auto simp: universal_newlines_no_cr split: option.splits)
  then have "CHR 0x0D \<notin> set (join_nl ms @ [CHR 0x0A] @ prev)"
    using join_nl_no_cr [OF assms(3)] by simp
  then have same: "universal_newlines (join_nl ms @ [CHR 0x0A] @ prev) =
                     join_nl ms @ [CHR 0x0A] @ prev"
    by (rule universal_newlines_id)
  have "logfile w' = (if ms = [] then logfile w else Some (join_nl ms @ [CHR 0x0A] @ prev))"
    using assms(4) with_Prepender_ok [OF assms(6-8), of ms w] prev
    by (auto simp: output_new_matches_def send_email_def split: if_splits)
  then have prev': "prev' = (if ms = [] then prev else join_nl ms @ [CHR 0x0A] @ prev)"
    using assms(9,5) prev same
    by (auto simp: read_file_to_string_def split: option.splits if_splits)
  have sub: "str_in x prev'" if "str_in x prev" for x
    using that sublist_grow [of x prev "join_nl ms @ [CHR 0x0A]" "[]"]
    by (auto simp: prev' str_in_iff)
  have new: "\<forall>m \<in> set ms. str_in m prev'"
  proof
    fix m assume m: "m \<in> set ms"
    then have "sublist m (join_nl ms)"
      using str_in_join_nl by (simp add: str_in_iff)
    then have "sublist m ([] @ join_nl ms @ ([CHR 0x0A] @ prev))"
      by (rule sublist_grow)
    then show "str_in m prev'"
      using m by (auto simp: prev' str_in_iff)
  qed
  show ?thesis
    using scrape_loop_second_run [OF sub assms(2) [unfolded scrape_supost_def] new]
    unfolding scrape_supost_def by simp
qed

text \<open>
  Claim C1, at the failing input: the site \<open>cr_site\<close> has one post, which mentions a monitor
  and whose title is \<open>Foo\r\<close>; there is no log file yet. The first run returns the match
  \<open>Foo\r: supost.com/post/index/1\<close> and \<open>output_new_matches\<close> writes it to the log file. The
  second run reads the file as \<open>Foo\n: supost.com/post/index/1\n\<close>, does not find the
  rendered string in it, and returns the same match again instead of the empty list.
\<close>

theorem carriage_return_title_reported_again:
  "read_file_to_string no_faults fresh_world = Inr [] \<and>
   scrape_supost cr_site demo_date [''monitor''] 5 [] =
     Finished [''Foo'' @ [CHR 0x0D] @ '': supost.com/post/index/1''] 0 OldestDateReached
       [Listing ''http://supost.com/search/index/5'',
        Detail ''http://supost.com/post/index/1''] \<and>
   logfile (snd (output_new_matches no_faults
                   [''Foo'' @ [CHR 0x0D] @ '': supost.com/post/index/1''] ''k'' 0 []
                   fresh_world)) =
     Some (''Foo'' @ [CHR 0x0D] @ '': supost.com/post/index/1'' @ [CHR 0x0A]) \<and>
   read_file_to_string no_faults
     (snd (output_new_matches no_faults
             [''Foo'' @ [CHR 0x0D] @ '': supost.com/post/index/1''] ''k'' 0 [] fresh_world)) =
     Inr (''Foo'' @ [CHR 0x0A] @ '': supost.com/post/index/1'' @ [CHR 0x0A]) \<and>
   scrape_supost cr_site demo_date [''monitor''] 5
       (''Foo'' @ [CHR 0x0A] @ '': supost.com/post/index/1'' @ [CHR 0x0A]) =
     Finished [''Foo'' @ [CHR 0x0D] @ '': supost.com/post/index/1''] 0 OldestDateReached
       [Listing ''http://supost.com/search/index/5'',
        Detail ''http://supost.com/post/index/1'']"
proof -
  have first: "scrape_supost cr_site demo_date [''monitor''] 5 [] =
     Finished [''Foo'' @ [CHR 0x0D] @ '': supost.com/post/index/1''] 0 OldestDateReached
       [Listing ''http://supost.com/search/index/5'',
        Detail ''http://supost.com/post/index/1'']"
    by code_simp
  have second: "scrape_supost cr_site demo_date [''monitor''] 5
       (''Foo'' @ [CHR 0x0A] @ '': supost.com/post/index/1'' @ [CHR 0x0A]) =
     Finished [''Foo'' @ [CHR 0x0D] @ '': supost.com/post/index/1''] 0 OldestDateReached
       [Listing ''http://supost.com/search/index/5'',
        Detail ''http://supost.com/post/index/1'']"
    by code_simp
  have written: "snd (output_new_matches no_faults
                   [''Foo'' @ [CHR 0x0D] @ '': supost.com/post/index/1''] ''k'' 0 []
                   fresh_world) =
     \<lparr>logfile = Some (''Foo'' @ [CHR 0x0D] @ '': supost.com/post/index/1'' @ [CHR 0x0A]),
      mail_calls = [create_mail_message
                      [''Foo'' @ [CHR 0x0D] @ '': supost.com/post/index/1''] ''k'' 0 []],
      printed = [''New matches found. Email sent.'']\<rparr>"
    by (simp add: output_new_matches_def with_Prepender_def Prepender_init_def
          Prepender_write_def Prepender_exit_def send_email_def no_faults_def fresh_world_def)
  have start: "read_file_to_string no_faults fresh_world = Inr []"
    by (simp add: read_file_to_string_def fresh_world_def)
  show ?thesis
    unfolding written using first second start
    by (simp add: read_file_to_string_def no_faults_def)
qed

end
